theory Spec2Isabelle
  imports Main
begin

section \<open>The Snake: data model (the\_snake.py)\<close>

text \<open>
  Coordinates are Python integers, hence \<^typ>\<open>int\<close>; Python's \<open>//\<close> and \<open>%\<close> with a
  positive right operand are \<open>div\<close> and \<open>mod\<close> on \<^typ>\<open>int\<close> (both round towards
  minus infinity). Positions are pixel coordinates of the upper left corner of a cell.
\<close>

type_synonym cell = "int \<times> int"
type_synonym vector = "int \<times> int"
type_synonym color = "int \<times> int \<times> int"

definition SCREEN_WIDTH :: int where "SCREEN_WIDTH = 640"
definition SCREEN_HEIGHT :: int where "SCREEN_HEIGHT = 480"
definition GRID_SIZE :: int where "GRID_SIZE = 20"

definition GRID_WIDTH :: int where "GRID_WIDTH = SCREEN_WIDTH div GRID_SIZE"
definition GRID_HEIGHT :: int where "GRID_HEIGHT = SCREEN_HEIGHT div GRID_SIZE"

definition SNAKE_COLOR :: color where "SNAKE_COLOR = (0, 255, 0)"
definition APPLE_COLOR :: color where "APPLE_COLOR = (255, 0, 0)"

definition UP :: vector where "UP = (0, - 1)"
definition DOWN :: vector where "DOWN = (0, 1)"
definition LEFT :: vector where "LEFT = (- 1, 0)"
definition RIGHT :: vector where "RIGHT = (1, 0)"

text \<open>The exceptions the program can raise.\<close>

datatype error = IndexError | SystemExit

text \<open>
  The two classes. \<open>GameObject\<close> carries \<open>position\<close> and \<open>body_color\<close>; \<open>Apple\<close> adds
  no field, \<open>Snake\<close> adds five. The fields \<open>length\<close> and \<open>last\<close> of the source are
  \<open>length_s\<close> and \<open>last_s\<close> here.
\<close>

record game_object =
  position :: cell
  body_color :: color

type_synonym apple = game_object

record snake = game_object +
  length_s :: int
  positions :: "cell list"
  direction :: vector
  next_direction :: "vector option"
  last_s :: "cell option"

text \<open>The two local variables of \<open>main\<close>.\<close>

record game =
  the_snake :: snake
  the_apple :: apple

section \<open>Randomness and input\<close>

text \<open>
  The results of the random number generator are inputs of the model.
  \<open>random.randint(a, b)\<close> returns some \<open>r\<close> with \<open>a \<le> r \<le> b\<close>; \<open>random.choice(seq)\<close>
  returns \<open>seq[k]\<close> for some index \<open>k < len(seq)\<close>.
\<close>

definition randint_ok :: "int \<Rightarrow> int \<Rightarrow> int \<Rightarrow> bool" where
  "randint_ok a b r = (a \<le> r \<and> r \<le> b)"

definition random_choice :: "nat \<Rightarrow> 'a list \<Rightarrow> 'a" where
  "random_choice k seq = seq ! k"

text \<open>What \<open>pygame.event.get()\<close> delivers, as far as \<open>handle_keys\<close> looks at it.\<close>

datatype key = K_UP | K_DOWN | K_LEFT | K_RIGHT | K_OTHER

datatype event = QUIT | KEYDOWN key | OTHER_EVENT

text \<open>
  Everything one iteration of the main loop reads from outside: the events of the frame,
  the index \<open>random.choice\<close> would draw in \<open>reset\<close>, and the two numbers
  \<open>random.randint\<close> would draw in \<open>randomize_position\<close>.
\<close>

record tick_input =
  events :: "event list"
  choice_idx :: nat
  rand_x :: int
  rand_y :: int

definition input_ok :: "tick_input \<Rightarrow> bool" where
  "input_ok i =
     (choice_idx i < 4 \<and> randint_ok 0 (GRID_WIDTH - 1) (rand_x i)
      \<and> randint_ok 0 (GRID_HEIGHT - 1) (rand_y i))"

section \<open>GameObject and Apple\<close>

definition centre :: cell where
  "centre =
     ((SCREEN_WIDTH div 2) div GRID_SIZE * GRID_SIZE,
      (SCREEN_HEIGHT div 2) div GRID_SIZE * GRID_SIZE)"

definition GameObject_init :: "cell option \<Rightarrow> color \<Rightarrow> game_object" where
  "GameObject_init pos col =
     \<lparr>position = (case pos of None \<Rightarrow> centre | Some p \<Rightarrow> p), body_color = col\<rparr>"

definition randomize_position :: "int \<Rightarrow> int \<Rightarrow> apple \<Rightarrow> apple" where
  "randomize_position grid_x grid_y a =
     a\<lparr>position := (grid_x * GRID_SIZE, grid_y * GRID_SIZE)\<rparr>"

definition Apple_init :: "int \<Rightarrow> int \<Rightarrow> apple" where
  "Apple_init grid_x grid_y =
     randomize_position grid_x grid_y (GameObject_init None APPLE_COLOR)"

section \<open>Snake\<close>

definition Snake_init :: snake where
  "Snake_init =
     game_object.extend (GameObject_init None SNAKE_COLOR)
       (snake.fields 1 [position (GameObject_init None SNAKE_COLOR)] RIGHT None None)"

definition get_head_position :: "snake \<Rightarrow> error + cell" where
  "get_head_position s = (case positions s of [] \<Rightarrow> Inl IndexError | p # _ \<Rightarrow> Inr p)"

definition update_direction :: "snake \<Rightarrow> snake" where
  "update_direction s =
     (case next_direction s of
        None \<Rightarrow> s
      | Some nd \<Rightarrow>
          (case (direction s, nd) of
             ((cur_dx, cur_dy), (next_dx, next_dy)) \<Rightarrow>
               if cur_dx = - next_dx \<and> cur_dy = - next_dy then s
               else s\<lparr>direction := nd, next_direction := None\<rparr>))"

definition reset :: "nat \<Rightarrow> snake \<Rightarrow> snake" where
  "reset k s =
     s\<lparr>length_s := 1, positions := [centre], position := centre, last_s := None,
       direction := random_choice k [UP, DOWN, LEFT, RIGHT], next_direction := None\<rparr>"

text \<open>Lines 150 to 152 of \<open>move\<close>: the cell in front of the head, wrapped per axis.\<close>

fun new_head :: "cell \<Rightarrow> vector \<Rightarrow> cell" where
  "new_head (head_x, head_y) (dx, dy) =
     ((head_x + dx * GRID_SIZE) mod SCREEN_WIDTH, (head_y + dy * GRID_SIZE) mod SCREEN_HEIGHT)"

text \<open>Line 155 of \<open>move\<close>: \<open>new_head in self.positions[2:]\<close>.\<close>

definition self_collision :: "cell \<Rightarrow> snake \<Rightarrow> bool" where
  "self_collision nh s = (nh \<in> set (drop 2 (positions s)))"

definition move :: "nat \<Rightarrow> snake \<Rightarrow> error + snake" where
  "move k s =
     (case get_head_position s of
        Inl e \<Rightarrow> Inl e
      | Inr h \<Rightarrow>
          let nh = new_head h (direction s) in
          if self_collision nh s then Inr (reset k s)
          else
            let ps = nh # positions s in
            if int (length ps) > length_s s
            then Inr (s\<lparr>positions := butlast ps, last_s := Some (last ps)\<rparr>)
            else Inr (s\<lparr>positions := ps, last_s := None\<rparr>))"

section \<open>Input handling and the main loop\<close>

definition on_key :: "key \<Rightarrow> snake \<Rightarrow> snake" where
  "on_key k s =
     (case k of
        K_UP \<Rightarrow> s\<lparr>next_direction := Some UP\<rparr>
      | K_DOWN \<Rightarrow> s\<lparr>next_direction := Some DOWN\<rparr>
      | K_LEFT \<Rightarrow> s\<lparr>next_direction := Some LEFT\<rparr>
      | K_RIGHT \<Rightarrow> s\<lparr>next_direction := Some RIGHT\<rparr>
      | K_OTHER \<Rightarrow> s)"

fun handle_keys :: "event list \<Rightarrow> snake \<Rightarrow> error + snake" where
  "handle_keys [] s = Inr s"
| "handle_keys (QUIT # es) s = Inl SystemExit"
| "handle_keys (KEYDOWN k # es) s = handle_keys es (on_key k s)"
| "handle_keys (OTHER_EVENT # es) s = handle_keys es s"

text \<open>
  Lines 235 to 237 of \<open>main\<close>: the head-equals-food test. Drawing reads the state and
  changes nothing of it, so it is left out.
\<close>

definition eat :: "int \<Rightarrow> int \<Rightarrow> game \<Rightarrow> error + game" where
  "eat gx gy g =
     (case get_head_position (the_snake g) of
        Inl e \<Rightarrow> Inl e
      | Inr h \<Rightarrow>
          if h = position (the_apple g)
          then Inr \<lparr>the_snake = (the_snake g)\<lparr>length_s := length_s (the_snake g) + 1\<rparr>,
                    the_apple = randomize_position gx gy (the_apple g)\<rparr>
          else Inr g)"

text \<open>One iteration of \<open>while True\<close> in \<open>main\<close>.\<close>

definition tick :: "tick_input \<Rightarrow> game \<Rightarrow> error + game" where
  "tick i g =
     (case handle_keys (events i) (the_snake g) of
        Inl e \<Rightarrow> Inl e
      | Inr s1 \<Rightarrow>
          (case move (choice_idx i) (update_direction s1) of
             Inl e \<Rightarrow> Inl e
           | Inr s3 \<Rightarrow> eat (rand_x i) (rand_y i) (g\<lparr>the_snake := s3\<rparr>)))"

text \<open>
  The state \<open>main\<close> builds before the loop, and the state at the top of the loop after
  the iterations that a list of inputs drives. The loop itself never ends; an exception
  ends the program.
\<close>

definition initial_game :: "int \<Rightarrow> int \<Rightarrow> game" where
  "initial_game gx gy = \<lparr>the_snake = Snake_init, the_apple = Apple_init gx gy\<rparr>"

fun run :: "tick_input list \<Rightarrow> game \<Rightarrow> error + game" where
  "run [] g = Inr g"
| "run (i # is) g = (case tick i g of Inl e \<Rightarrow> Inl e | Inr g' \<Rightarrow> run is g')"

section \<open>Notions of the specification\<close>

text \<open>The four unit vectors, and the opposite of a vector.\<close>

definition unit_vectors :: "vector list" where
  "unit_vectors = [UP, DOWN, LEFT, RIGHT]"

definition opposite :: "vector \<Rightarrow> vector" where
  "opposite d = (- fst d, - snd d)"

definition perpendicular :: "vector \<Rightarrow> vector \<Rightarrow> bool" where
  "perpendicular d e = (fst d * fst e + snd d * snd e = 0)"

text \<open>
  Distance on one axis of the torus, in pixels, and adjacency: two cells are one
  wrap-aware grid step apart when their torus Manhattan distance is one cell.
\<close>

definition axis_dist :: "int \<Rightarrow> int \<Rightarrow> int \<Rightarrow> int" where
  "axis_dist n a b = min ((a - b) mod n) ((b - a) mod n)"

definition adjacent :: "cell \<Rightarrow> cell \<Rightarrow> bool" where
  "adjacent c c' =
     (axis_dist SCREEN_WIDTH (fst c) (fst c') + axis_dist SCREEN_HEIGHT (snd c) (snd c')
        = GRID_SIZE)"

fun chain :: "cell list \<Rightarrow> bool" where
  "chain (a # b # cs) = (adjacent a b \<and> chain (b # cs))"
| "chain _ = True"

text \<open>A cell of the board: grid-aligned and inside the screen.\<close>

definition on_board :: "cell \<Rightarrow> bool" where
  "on_board c =
     (GRID_SIZE dvd fst c \<and> 0 \<le> fst c \<and> fst c < SCREEN_WIDTH
      \<and> GRID_SIZE dvd snd c \<and> 0 \<le> snd c \<and> snd c < SCREEN_HEIGHT)"

text \<open>
  The body as the data model wants it: non-empty, no cell twice, consecutive cells one
  step apart.
\<close>

definition body_ok :: "cell list \<Rightarrow> bool" where
  "body_ok ps = (ps \<noteq> [] \<and> distinct ps \<and> chain ps)"

text \<open>
  What holds of the snake at the top of the loop: besides the body, the direction is a unit
  vector and is the one that led from the neck to the head, a buffered direction is a unit
  vector, and the body is no longer than \<open>length\<close>.
\<close>

definition pending_ok :: "vector option \<Rightarrow> bool" where
  "pending_ok nd = (case nd of None \<Rightarrow> True | Some d \<Rightarrow> d \<in> set unit_vectors)"

definition heading_ok :: "snake \<Rightarrow> bool" where
  "heading_ok s =
     (case positions s of h # n # _ \<Rightarrow> h = new_head n (direction s) | _ \<Rightarrow> True)"

definition snake_base :: "snake \<Rightarrow> bool" where
  "snake_base s =
     (body_ok (positions s) \<and> list_all on_board (positions s)
      \<and> direction s \<in> set unit_vectors \<and> pending_ok (next_direction s)
      \<and> int (length (positions s)) \<le> length_s s)"

definition snake_inv :: "snake \<Rightarrow> bool" where
  "snake_inv s = (snake_base s \<and> heading_ok s)"

text \<open>
  Between \<open>update_direction\<close> and \<open>move\<close>: the direction may have turned, but not
  back onto the neck.
\<close>

definition turned_ok :: "snake \<Rightarrow> bool" where
  "turned_ok s =
     (case positions s of h # n # _ \<Rightarrow> new_head h (direction s) \<noteq> n | _ \<Rightarrow> True)"

definition snake_mid :: "snake \<Rightarrow> bool" where
  "snake_mid s = (snake_base s \<and> turned_ok s)"

text \<open>What the claims ask of a snake: a good body whose first cell is the head.\<close>

definition well_formed :: "snake \<Rightarrow> bool" where
  "well_formed s = (body_ok (positions s) \<and> get_head_position s = Inr (positions s ! 0))"

text \<open>
  The iteration that input \<open>i\<close> drives from state \<open>g\<close> takes the reset branch of
  \<open>move\<close>: the events are handled without \<open>QUIT\<close>, and after \<open>update_direction\<close> the
  cell in front of the head is in \<open>positions[2:]\<close>.
\<close>

definition resets :: "tick_input \<Rightarrow> game \<Rightarrow> bool" where
  "resets i g =
     (case handle_keys (events i) (the_snake g) of
        Inl e \<Rightarrow> False
      | Inr s1 \<Rightarrow>
          (case get_head_position (update_direction s1) of
             Inl e \<Rightarrow> False
           | Inr h \<Rightarrow>
               self_collision (new_head h (direction (update_direction s1)))
                 (update_direction s1)))"

text \<open>The game with the direction buffer emptied, to compare two runs up to the buffer.\<close>

definition clear_buffer :: "game \<Rightarrow> game" where
  "clear_buffer g = g\<lparr>the_snake := (the_snake g)\<lparr>next_direction := None\<rparr>\<rparr>"

definition rejected_buffer :: "snake \<Rightarrow> bool" where
  "rejected_buffer s = (next_direction s = Some (opposite (direction s)))"

section \<open>A concrete game\<close>

text \<open>
  Five iterations from the initial state with the apple one cell ahead: the snake eats
  three apples in a row, the third draw puts the apple on cell \<open>(ax, ay)\<close>, then the
  player turns up and left. The snake then lies on three sides of a square, and turning
  down next makes it run into its own tail cell.
\<close>

definition loop_inputs :: "int \<Rightarrow> int \<Rightarrow> tick_input list" where
  "loop_inputs ax ay =
     [\<lparr>events = [], choice_idx = 0, rand_x = 18, rand_y = 12\<rparr>,
      \<lparr>events = [], choice_idx = 0, rand_x = 19, rand_y = 12\<rparr>,
      \<lparr>events = [], choice_idx = 0, rand_x = ax, rand_y = ay\<rparr>,
      \<lparr>events = [KEYDOWN K_UP], choice_idx = 0, rand_x = 0, rand_y = 0\<rparr>,
      \<lparr>events = [KEYDOWN K_LEFT], choice_idx = 0, rand_x = 0, rand_y = 0\<rparr>]"

definition loop_game :: "int \<Rightarrow> int \<Rightarrow> game" where
  "loop_game ax ay =
     \<lparr>the_snake =
        \<lparr>position = (320, 240), body_color = SNAKE_COLOR, length_s = 4,
         positions = [(360, 220), (380, 220), (380, 240), (360, 240)],
         direction = LEFT, next_direction = None, last_s = Some (340, 240)\<rparr>,
      the_apple = \<lparr>position = (ax * 20, ay * 20), body_color = APPLE_COLOR\<rparr>\<rparr>"

definition turn_down :: tick_input where
  "turn_down = \<lparr>events = [KEYDOWN K_DOWN], choice_idx = 3, rand_x = 5, rand_y = 5\<rparr>"

text \<open>
  A snake of two cells whose direction points from the head back onto the neck. The loop
  never produces it (\<open>update_direction\<close> refuses the reversal); it serves to see what
  \<open>move\<close> does there.
\<close>

definition reversed_snake :: snake where
  "reversed_snake =
     Snake_init\<lparr>length_s := 2, positions := [(20, 0), (0, 0)], direction := LEFT\<rparr>"


section \<open>Arithmetic of the torus\<close>

text \<open>The constants of the board and the four directions, to unfold them together.\<close>

lemmas board_defs = SCREEN_WIDTH_def SCREEN_HEIGHT_def GRID_SIZE_def GRID_WIDTH_def GRID_HEIGHT_def
lemmas dir_defs = UP_def DOWN_def LEFT_def RIGHT_def

lemma centre_eq: "centre = (320, 240)"
  by (simp add: centre_def board_defs)

lemma Snake_init_eq:
  "Snake_init =
     \<lparr>position = centre, body_color = SNAKE_COLOR, length_s = 1, positions = [centre],
      direction = RIGHT, next_direction = None, last_s = None\<rparr>"
  by (simp add: Snake_init_def GameObject_init_def game_object.defs snake.defs)

lemma unit_vectors_cases:
  "d \<in> set unit_vectors \<longleftrightarrow> d = (0, -1) \<or> d = (0, 1) \<or> d = (-1, 0) \<or> d = (1, 0)"
  by (auto simp: unit_vectors_def dir_defs)

text \<open>
  One step of \<open>g\<close> pixels along an axis of length \<open>n\<close>, forwards or backwards and
  wrapped, is at torus distance \<open>g\<close> from where it started.
\<close>

lemma axis_dist_shift: "0 < g \<Longrightarrow> 2 * g \<le> n \<Longrightarrow> axis_dist n ((x + g) mod n) x = g"
proof -
  assume a: "0 < g" "2 * g \<le> n"
  have 1: "((x + g) mod n - x) mod n = g" using a by (simp add: mod_diff_left_eq)
  have "(- g) mod n = (n - g) mod n" by (metis diff_0 mod_diff_left_eq mod_self)
  also have "\<dots> = n - g" using a by (intro mod_pos_pos_trivial) linarith+
  finally have 3: "(- g) mod n = n - g" .
  have 2: "(x - (x + g) mod n) mod n = n - g" using 3 by (simp add: mod_diff_right_eq)
  show ?thesis unfolding axis_dist_def 1 2 using a by simp
qed


lemma axis_dist_sym: "axis_dist n a b = axis_dist n b a"
  by (simp add: axis_dist_def min.commute)

lemma axis_dist_stay: "axis_dist n (x mod n) x = 0"
  unfolding axis_dist_def by (simp add: mod_diff_left_eq mod_diff_right_eq)

lemma axis_dist_back: "0 < g \<Longrightarrow> 2 * g \<le> n \<Longrightarrow> axis_dist n ((x - g) mod n) x = g"
proof -
  assume a: "0 < g" "2 * g \<le> n"
  have "axis_dist n ((x - g) mod n) x = axis_dist n ((x - g) mod n) ((x - g) + g)" by simp
  also have "\<dots> = axis_dist n (x - g) (((x - g) + g) mod n)"
    unfolding axis_dist_def by (simp add: mod_diff_left_eq mod_diff_right_eq)
  also have "\<dots> = g" using axis_dist_shift[OF a, of "x - g"] by (simp only: axis_dist_sym)
  finally show ?thesis .
qed

lemma new_head_adjacent: "d \<in> set unit_vectors \<Longrightarrow> adjacent (new_head h d) h"
proof -
  assume d: "d \<in> set unit_vectors"
  obtain x y where h: "h = (x, y)" by (cases h)
  have w: "axis_dist 640 ((x + 20) mod 640) x = 20" "axis_dist 640 ((x - 20) mod 640) x = 20"
          "axis_dist 480 ((y + 20) mod 480) y = 20" "axis_dist 480 ((y - 20) mod 480) y = 20"
    by (simp_all add: axis_dist_shift axis_dist_back)
  from d show ?thesis unfolding unit_vectors_cases h
    by (elim disjE) (simp_all add: adjacent_def board_defs w axis_dist_stay)
qed

lemma new_head_range:
  "0 \<le> fst (new_head h d) \<and> fst (new_head h d) < SCREEN_WIDTH
   \<and> 0 \<le> snd (new_head h d) \<and> snd (new_head h d) < SCREEN_HEIGHT"
  by (cases h; cases d) (simp add: board_defs)

lemma on_board_new_head: "on_board h \<Longrightarrow> d \<in> set unit_vectors \<Longrightarrow> on_board (new_head h d)"
proof -
  assume h: "on_board h" and d: "d \<in> set unit_vectors"
  obtain x y where xy: "h = (x, y)" by (cases h)
  have dv: "(20::int) dvd x" "(20::int) dvd y" using h by (simp_all add: on_board_def xy board_defs)
  have m: "(20::int) dvd (x + 20) mod 640" "(20::int) dvd (x - 20) mod 640"
    "(20::int) dvd x mod 640" "(20::int) dvd (y + 20) mod 480"
    "(20::int) dvd (y - 20) mod 480" "(20::int) dvd y mod 480"
    using dv by (simp_all add: dvd_mod)
  from d show ?thesis unfolding unit_vectors_cases xy
    by (elim disjE) (simp_all add: on_board_def board_defs m)
qed

text \<open>
  The new head is neither the old head nor, unless the snake reverses, the cell behind the
  old head: a step of one or two cells never comes back to where it started, the board
  being more than two cells wide and high.
\<close>

lemma shift_ne: "0 \<le> x \<Longrightarrow> x < n \<Longrightarrow> \<not> n dvd g \<Longrightarrow> (x + g) mod n \<noteq> (x::int)"
proof
  assume a: "0 \<le> x" "x < n" "\<not> n dvd g" and e: "(x + g) mod n = x"
  have "(x + g) mod n = x mod n" using e a by simp
  then have "n dvd (x + g) - x" by (simp only: mod_eq_dvd_iff)
  then show False using a by simp
qed

lemma new_head_twice:
  "new_head (new_head (x, y) (dx, dy)) (ex, ey) =
     ((x + (dx + ex) * 20) mod 640, (y + (dy + ey) * 20) mod 480)"
proof -
  have c: "(a mod n + b) mod n = (a + b) mod n" for a b n :: int
    by (rule mod_add_left_eq)
  have a: "((x + dx * 20) mod 640 + ex * 20) mod 640 = (x + (dx + ex) * 20) mod 640"
    unfolding c by (simp add: algebra_simps)
  have b: "((y + dy * 20) mod 480 + ey * 20) mod 480 = (y + (dy + ey) * 20) mod 480"
    unfolding c by (simp add: algebra_simps)
  show ?thesis by (simp add: board_defs a b)
qed

lemma new_head_ne_head:
  assumes "on_board h" "d \<in> set unit_vectors" shows "new_head h d \<noteq> h"
proof -
  obtain x y where xy: "h = (x, y)" by (cases h)
  have r: "0 \<le> x" "x < 640" "0 \<le> y" "y < 480"
    using assms(1) by (simp_all add: on_board_def xy board_defs)
  have n: "(x + 20) mod 640 \<noteq> x" "(x + (- 20)) mod 640 \<noteq> x"
    "(y + 20) mod 480 \<noteq> y" "(y + (- 20)) mod 480 \<noteq> y"
    using r by (intro shift_ne; simp)+
  from assms(2) show ?thesis unfolding unit_vectors_cases xy
    using n by (elim disjE) (simp_all add: board_defs)
qed


lemma new_head_ne_neck:
  assumes "on_board n" "d \<in> set unit_vectors" "e \<in> set unit_vectors" "e \<noteq> opposite d"
  shows "new_head (new_head n d) e \<noteq> n"
proof -
  obtain x y where xy: "n = (x, y)" by (cases n)
  obtain dx dy where d: "d = (dx, dy)" by (cases d)
  obtain ex ey where e: "e = (ex, ey)" by (cases e)
  have r: "0 \<le> x" "x < 640" "0 \<le> y" "y < 480"
    using assms(1) by (simp_all add: on_board_def xy board_defs)
  have nx: "(x + g) mod 640 \<noteq> x" if "\<not> 640 dvd g" for g
    using r that by (intro shift_ne) simp_all
  have ny: "(y + g) mod 480 \<noteq> y" if "\<not> 480 dvd g" for g
    using r that by (intro shift_ne) simp_all
  have "\<not> 640 dvd (dx + ex) * 20 \<or> \<not> 480 dvd (dy + ey) * 20"
    using assms(2,3,4) unfolding unit_vectors_cases d e opposite_def
    by (elim disjE) simp_all
  then show ?thesis
    unfolding xy d e new_head_twice using nx ny by auto
qed


section \<open>The invariant of the main loop\<close>

text \<open>
  The invariant \<open>snake_inv\<close> holds of the snake at the top of the loop; \<open>snake_mid\<close>
  holds between \<open>update_direction\<close> and \<open>move\<close>. Each step of the loop body takes one
  to the next.
\<close>

lemma choice_nth: "random_choice 0 [a,b,c,d] = a" "random_choice (Suc 0) [a,b,c,d] = b"
  "random_choice 2 [a,b,c,d] = c"  "random_choice 3 [a,b,c,d] = d"
  by (simp_all add: random_choice_def numeral_2_eq_2 numeral_3_eq_3)

lemma lt4: "(k::nat) < 4 \<longleftrightarrow> k = 0 \<or> k = 1 \<or> k = 2 \<or> k = 3" by arith

lemma heading_ok_eqI:
  "positions s' = positions s \<Longrightarrow> direction s' = direction s \<Longrightarrow> heading_ok s' = heading_ok s"
  by (simp add: heading_ok_def split: list.splits)

lemma turned_ok_eqI:
  "positions s' = positions s \<Longrightarrow> direction s' = direction s \<Longrightarrow> turned_ok s' = turned_ok s"
  by (simp add: turned_ok_def split: list.splits)

lemma on_board_centre: "on_board centre"
  by (simp add: on_board_def centre_eq board_defs)

lemma snake_inv_init: "snake_inv Snake_init"
  by (simp add: snake_inv_def snake_base_def heading_ok_def body_ok_def pending_ok_def
      Snake_init_eq on_board_centre unit_vectors_def)

lemma snake_inv_reset: "k < 4 \<Longrightarrow> snake_inv (reset k s)"
  unfolding lt4
  by (elim disjE) 
    (simp_all add: snake_inv_def snake_base_def heading_ok_def body_ok_def pending_ok_def
      reset_def on_board_centre unit_vectors_def choice_nth)

text \<open>\<open>handle_keys\<close> writes the buffer and nothing else, or raises on \<open>QUIT\<close>.\<close>

lemma pending_ok_on_key: "pending_ok (next_direction s) \<Longrightarrow> pending_ok (next_direction (on_key k s))"
  by (cases k) (simp_all add: on_key_def pending_ok_def unit_vectors_def)

lemma on_key_buffer: "on_key k s = s\<lparr>next_direction := next_direction (on_key k s)\<rparr>"
  by (cases k) (simp_all add: on_key_def)

lemma handle_keys_buffer:
  "handle_keys evs s = Inr s' \<Longrightarrow> s' = s\<lparr>next_direction := next_direction s'\<rparr>"
proof (induction evs s rule: handle_keys.induct)
  case (3 k es s)
  then have "s' = (on_key k s)\<lparr>next_direction := next_direction s'\<rparr>" by simp
  then show ?case by (subst (asm) on_key_buffer) simp
qed simp_all

lemma handle_keys_pending:
  "handle_keys evs s = Inr s' \<Longrightarrow> pending_ok (next_direction s) \<Longrightarrow> pending_ok (next_direction s')"
  by (induction evs s rule: handle_keys.induct) (simp_all add: pending_ok_on_key)

lemma handle_keys_quit: "handle_keys evs s = Inl e \<Longrightarrow> e = SystemExit \<and> QUIT \<in> set evs"
  by (induction evs s rule: handle_keys.induct) auto

lemma handle_keys_no_quit: "QUIT \<notin> set evs \<Longrightarrow> \<exists>s'. handle_keys evs s = Inr s'"
  by (induction evs s rule: handle_keys.induct) auto

lemma snake_inv_buffer:
  "snake_inv s \<Longrightarrow> pending_ok nd \<Longrightarrow> snake_inv (s\<lparr>next_direction := nd\<rparr>)"
  by (simp add: snake_inv_def snake_base_def heading_ok_eqI[of "s\<lparr>next_direction := nd\<rparr>" s])

lemma handle_keys_inv:
  assumes "handle_keys evs s = Inr s'" "snake_inv s" shows "snake_inv s'"
proof -
  have "pending_ok (next_direction s')"
    using handle_keys_pending[OF assms(1)] assms(2) by (simp add: snake_inv_def snake_base_def)
  then have "snake_inv (s\<lparr>next_direction := next_direction s'\<rparr>)"
    using assms(2) by (rule snake_inv_buffer[rotated])
  then show ?thesis using handle_keys_buffer[OF assms(1)] by simp
qed

text \<open>\<open>update_direction\<close> either changes nothing or adopts a buffered direction.\<close>

lemma update_direction_cases:
  "update_direction s = s \<or>
   (\<exists>nd. next_direction s = Some nd \<and> nd \<noteq> opposite (direction s)
      \<and> update_direction s = s\<lparr>direction := nd, next_direction := None\<rparr>)"
  by (cases "next_direction s"; cases "direction s") 
     (auto simp: update_direction_def opposite_def split: prod.splits)

lemma update_direction_mid:
  assumes "snake_inv s" shows "snake_mid (update_direction s)"
proof -
  have base: "snake_base s" and hd: "heading_ok s" using assms by (simp_all add: snake_inv_def)
  have d: "direction s \<in> set unit_vectors" and b: "list_all on_board (positions s)"
    and p: "pending_ok (next_direction s)"
    using base by (simp_all add: snake_base_def)
  have turned: "turned_ok (s\<lparr>direction := e, next_direction := x\<rparr>)"
    if e: "e \<in> set unit_vectors" "e \<noteq> opposite (direction s)" for e x
  proof (cases "positions s")
    case Nil then show ?thesis by (simp add: turned_ok_def)
  next
    case (Cons h t)
    show ?thesis
    proof (cases t)
      case Nil then show ?thesis using Cons by (simp add: turned_ok_def)
    next
      case (Cons n r)
      have "on_board n" using b \<open>positions s = h # t\<close> Cons by simp
      moreover have "h = new_head n (direction s)"
        using hd \<open>positions s = h # t\<close> Cons by (simp add: heading_ok_def)
      ultimately have "new_head h e \<noteq> n" using new_head_ne_neck[OF _ d e] by simp
      then show ?thesis using \<open>positions s = h # t\<close> Cons by (simp add: turned_ok_def)
    qed
  qed
  have same: "opposite (direction s) \<noteq> direction s"
    using d unfolding unit_vectors_cases by (auto simp: opposite_def)
  from update_direction_cases[of s] show ?thesis
  proof (elim disjE exE conjE)
    assume u: "update_direction s = s"
    have "turned_ok (s\<lparr>direction := direction s, next_direction := next_direction s\<rparr>)"
      using d same by (intro turned) simp_all
    then show ?thesis using u base by (simp add: snake_mid_def)
  next
    fix nd assume n: "next_direction s = Some nd" "nd \<noteq> opposite (direction s)"
      and u: "update_direction s = s\<lparr>direction := nd, next_direction := None\<rparr>"
    have nu: "nd \<in> set unit_vectors" using p n by (simp add: pending_ok_def)
    have "snake_base (s\<lparr>direction := nd, next_direction := None\<rparr>)"
      using base nu by (simp add: snake_base_def pending_ok_def)
    then show ?thesis using turned[OF nu n(2)] u by (simp add: snake_mid_def)
  qed
qed

lemma update_direction_body: "positions (update_direction s) = positions s"
  using update_direction_cases[of s] by auto

lemma chain_butlast: "chain ps \<Longrightarrow> chain (butlast ps)"
  by (induction ps rule: chain.induct) (auto split: if_splits)

text \<open>\<open>move\<close> on a non-empty and on an empty body.\<close>

lemma move_Cons:
  "positions s = h # t \<Longrightarrow>
   move k s =
     Inr (if self_collision (new_head h (direction s)) s then reset k s
          else if int (length t) + 2 > length_s s
          then s\<lparr>positions := new_head h (direction s) # butlast (h # t),
                 last_s := Some (last (h # t))\<rparr>
          else s\<lparr>positions := new_head h (direction s) # h # t, last_s := None\<rparr>)"
  by (simp add: move_def get_head_position_def Let_def)

lemma move_Nil: "positions s = [] \<Longrightarrow> move k s = Inl IndexError"
  by (simp add: move_def get_head_position_def)

lemma heading_ok_butlast:
  "heading_ok (s\<lparr>positions := a # h # t, last_s := x\<rparr>) \<Longrightarrow>
   heading_ok (s\<lparr>positions := a # butlast (h # t), last_s := y\<rparr>)"
  by (cases t) (simp_all add: heading_ok_def)

lemma move_inv:
  assumes "snake_mid s" "k < 4" shows "\<exists>s'. move k s = Inr s' \<and> snake_inv s'"
proof -
  have base: "snake_base s" and tn: "turned_ok s" using assms by (simp_all add: snake_mid_def)
  have d: "direction s \<in> set unit_vectors" and b: "list_all on_board (positions s)"
    and p: "pending_ok (next_direction s)" and bo: "body_ok (positions s)"
    and le: "int (length (positions s)) \<le> length_s s"
    using base by (simp_all add: snake_base_def)
  obtain h t where ps: "positions s = h # t" using bo by (cases "positions s") (simp_all add: body_ok_def)
  define nh where "nh = new_head h (direction s)"
  have hb: "on_board h" using b ps by simp
  have nb: "on_board nh" unfolding nh_def using hb d by (rule on_board_new_head)
  have adj: "adjacent nh h" unfolding nh_def using d by (rule new_head_adjacent)
  have ne: "nh \<noteq> h" unfolding nh_def using hb d by (rule new_head_ne_head)
  show ?thesis
  proof (cases "self_collision nh s")
    case True
    then show ?thesis using move_Cons[OF ps, of k] snake_inv_reset[OF assms(2)] by (simp add: nh_def)
  next
    case False
    have notin: "nh \<notin> set (h # t)"
    proof (cases t)
      case Nil then show ?thesis using ne by simp
    next
      case (Cons n r)
      have "nh \<noteq> n" using tn ps Cons by (simp add: turned_ok_def nh_def)
      moreover have "nh \<notin> set r" using False ps Cons by (simp add: self_collision_def)
      ultimately show ?thesis using ne Cons by simp
    qed
    have long: "body_ok (nh # h # t)" "list_all on_board (nh # h # t)"
      using bo ps notin adj nb b by (simp_all add: body_ok_def)
    have hl: "heading_ok (s\<lparr>positions := nh # h # t, last_s := x\<rparr>)" for x
      by (simp add: heading_ok_def nh_def)
    show ?thesis
    proof (cases "int (length t) + 2 > length_s s")
      case True
      have "body_ok (nh # butlast (h # t))"
        using long(1) chain_butlast[of "nh # h # t"] distinct_butlast[of "nh # h # t"]
        by (simp add: body_ok_def)
      moreover have "list_all on_board (nh # butlast (h # t))"
        using long(2) by (auto simp: list_all_iff dest: in_set_butlastD)
      moreover have "int (length (nh # butlast (h # t))) \<le> length_s s" using le ps by simp
      ultimately have "snake_base (s\<lparr>positions := nh # butlast (h # t), last_s := Some (last (h # t))\<rparr>)"
        using d p by (simp add: snake_base_def)
      then have "snake_inv (s\<lparr>positions := nh # butlast (h # t), last_s := Some (last (h # t))\<rparr>)"
        using heading_ok_butlast[OF hl] by (simp add: snake_inv_def)
      then show ?thesis using move_Cons[OF ps, of k] False True by (simp add: nh_def)
    next
      case F2: False
      have "snake_base (s\<lparr>positions := nh # h # t, last_s := None\<rparr>)"
        using d p long F2 by (simp add: snake_base_def)
      then have "snake_inv (s\<lparr>positions := nh # h # t, last_s := None\<rparr>)"
        using hl by (simp add: snake_inv_def)
      then show ?thesis using move_Cons[OF ps, of k] False F2 by (simp add: nh_def)
    qed
  qed
qed

lemma snake_inv_grow: "snake_inv s \<Longrightarrow> snake_inv (s\<lparr>length_s := length_s s + 1\<rparr>)"
  by (simp add: snake_inv_def snake_base_def heading_ok_eqI[of "s\<lparr>length_s := length_s s + 1\<rparr>" s])

lemma snake_inv_head: "snake_inv s \<Longrightarrow> \<exists>h. get_head_position s = Inr h"
  by (cases "positions s") (simp_all add: snake_inv_def snake_base_def body_ok_def get_head_position_def)

lemma eat_inv:
  assumes "snake_inv (the_snake g)"
  shows "\<exists>g'. eat gx gy g = Inr g' \<and> snake_inv (the_snake g')"
proof -
  obtain h where "get_head_position (the_snake g) = Inr h" using snake_inv_head[OF assms] by blast
  then show ?thesis using assms snake_inv_grow[OF assms] by (simp add: eat_def)
qed

lemma tick_inv:
  assumes "snake_inv (the_snake g)" "choice_idx i < 4" "handle_keys (events i) (the_snake g) = Inr s1"
  shows "\<exists>g'. tick i g = Inr g' \<and> snake_inv (the_snake g')"
proof -
  have "snake_mid (update_direction s1)"
    using handle_keys_inv[OF assms(3,1)] by (rule update_direction_mid)
  then obtain s3 where m: "move (choice_idx i) (update_direction s1) = Inr s3" and i3: "snake_inv s3"
    using move_inv[OF _ assms(2)] by blast
  have "snake_inv (the_snake (g\<lparr>the_snake := s3\<rparr>))" using i3 by simp
  from eat_inv[OF this] show ?thesis using assms(3) m by (simp add: tick_def)
qed

text \<open>An iteration, and a run of iterations, keep the invariant and raise only on \<open>QUIT\<close>.\<close>

lemma tick_Inr_keys: "tick i g = Inr g' \<Longrightarrow> \<exists>s1. handle_keys (events i) (the_snake g) = Inr s1"
  by (cases "handle_keys (events i) (the_snake g)") (simp_all add: tick_def)

lemma tick_preserves:
  "snake_inv (the_snake g) \<Longrightarrow> choice_idx i < 4 \<Longrightarrow> tick i g = Inr g' \<Longrightarrow> snake_inv (the_snake g')"
  using tick_inv tick_Inr_keys by fastforce

lemma tick_error:
  assumes "snake_inv (the_snake g)" "choice_idx i < 4" "tick i g = Inl e"
  shows "e = SystemExit \<and> QUIT \<in> set (events i)"
proof (cases "handle_keys (events i) (the_snake g)")
  case (Inl e')
  then show ?thesis using assms(3) handle_keys_quit[OF Inl] by (simp add: tick_def)
next
  case (Inr s1)
  then show ?thesis using tick_inv[OF assms(1,2) Inr] assms(3) by auto
qed

lemma run_preserves:
  "snake_inv (the_snake g) \<Longrightarrow> \<forall>i\<in>set is. choice_idx i < 4 \<Longrightarrow> run is g = Inr g'
   \<Longrightarrow> snake_inv (the_snake g')"
proof (induction "is" arbitrary: g)
  case Nil then show ?case by simp
next
  case (Cons i "is")
  then obtain g1 where t: "tick i g = Inr g1" and r: "run is g1 = Inr g'"
    by (auto split: sum.splits)
  have "snake_inv (the_snake g1)" using tick_preserves[OF Cons.prems(1) _ t] Cons.prems(2) by simp
  then show ?case using Cons.IH[OF _ _ r] Cons.prems(2) by simp
qed

lemma run_error:
  "snake_inv (the_snake g) \<Longrightarrow> \<forall>i\<in>set is. choice_idx i < 4 \<Longrightarrow> run is g = Inl e
   \<Longrightarrow> e = SystemExit \<and> (\<exists>i\<in>set is. QUIT \<in> set (events i))"
proof (induction "is" arbitrary: g)
  case Nil then show ?case by simp
next
  case (Cons i "is")
  show ?case
  proof (cases "tick i g")
    case (Inl e')
    then show ?thesis using tick_error[OF Cons.prems(1) _ Inl] Cons.prems(2,3) by simp
  next
    case (Inr g1)
    have "snake_inv (the_snake g1)" using tick_preserves[OF Cons.prems(1) _ Inr] Cons.prems(2) by simp
    then show ?thesis using Cons.IH[of g1] Cons.prems(2,3) Inr by simp
  qed
qed

lemma input_ok_idx: "input_ok i \<Longrightarrow> choice_idx i < 4"
  by (simp add: input_ok_def)

lemma snake_inv_initial: "snake_inv (the_snake (initial_game ax ay))"
  by (simp add: initial_game_def snake_inv_init)

lemma reachable_inv:
  "list_all input_ok is \<Longrightarrow> run is (initial_game ax ay) = Inr g \<Longrightarrow> snake_inv (the_snake g)"
  using run_preserves[OF snake_inv_initial] input_ok_idx unfolding list_all_iff by blast

lemma snake_inv_well_formed: "snake_inv s \<Longrightarrow> well_formed s"
  by (cases "positions s") (simp_all add: snake_inv_def snake_base_def well_formed_def body_ok_def get_head_position_def)

lemma snake_mid_well_formed: "snake_mid s \<Longrightarrow> well_formed s"
  by (cases "positions s") (simp_all add: snake_mid_def snake_base_def well_formed_def body_ok_def get_head_position_def)


section \<open>The claims\<close>

text \<open>The concrete game is reached from the initial state; its next iteration resets.\<close>

lemma loop_game_reached_centre:
  "run (loop_inputs 16 12) (initial_game 17 12) = Inr (loop_game 16 12)"
  by code_simp

lemma loop_game_reached_corner:
  "run (loop_inputs 0 0) (initial_game 17 12) = Inr (loop_game 0 0)"
  by code_simp

lemma loop_inputs_ok:
  "randint_ok 0 (GRID_WIDTH - 1) ax \<Longrightarrow> randint_ok 0 (GRID_HEIGHT - 1) ay \<Longrightarrow>
   list_all input_ok (loop_inputs ax ay)"
  by (simp add: loop_inputs_def input_ok_def randint_ok_def board_defs)

lemma turn_down_ok: "input_ok turn_down"
  by (simp add: turn_down_def input_ok_def randint_ok_def board_defs)

lemma resets_iff:
  "resets i g \<longleftrightarrow>
     (\<exists>s1 h t. handle_keys (events i) (the_snake g) = Inr s1 \<and> positions s1 = h # t
        \<and> self_collision (new_head h (direction (update_direction s1))) (update_direction s1))"
proof (cases "handle_keys (events i) (the_snake g)")
  case (Inl e) then show ?thesis by (simp add: resets_def)
next
  case (Inr s1)
  then show ?thesis
    by (cases "positions s1")
       (auto simp add: resets_def get_head_position_def update_direction_body)
qed

lemma move_collision:
  "positions s = h # t \<Longrightarrow> self_collision (new_head h (direction s)) s \<Longrightarrow> move k s = Inr (reset k s)"
  by (simp add: move_Cons)

lemma reset_head: "get_head_position (reset k s) = Inr centre"
  by (simp add: reset_def get_head_position_def)

lemma tick_reset:
  assumes "handle_keys (events i) (the_snake g) = Inr s1" "positions s1 = h # t"
    "self_collision (new_head h (direction (update_direction s1))) (update_direction s1)"
  shows "tick i g =
     Inr (if position (the_apple g) = centre
          then \<lparr>the_snake = (reset (choice_idx i) (update_direction s1))\<lparr>length_s := 2\<rparr>,
                the_apple = randomize_position (rand_x i) (rand_y i) (the_apple g)\<rparr>
          else g\<lparr>the_snake := reset (choice_idx i) (update_direction s1)\<rparr>)"
proof -
  have p: "positions (update_direction s1) = h # t" using assms(2) by (simp add: update_direction_body)
  have m: "move (choice_idx i) (update_direction s1) = Inr (reset (choice_idx i) (update_direction s1))"
    using move_collision[OF p assms(3)] .
  have l: "length_s (reset k s) + 1 = 2" for k s by (simp add: reset_def)
  show ?thesis using assms(1) m by (auto simp add: tick_def eat_def reset_head l)
qed

text \<open>
  Claim C1, as amended. When \<open>move\<close> finds the cell in front of the head in
  \<open>positions[2:]\<close> it calls \<open>reset\<close> and returns: no head is inserted, and \<open>move\<close> itself
  touches neither \<open>length\<close> nor the apple. The loop of \<open>main\<close> has no skip, though: it
  runs the head-equals-food test on every iteration, after a reset against the reset head,
  the board centre. So on an iteration with a reset the apple stays and \<open>length\<close> is 1
  unless the apple lies on the centre cell; then \<open>length\<close> becomes 2 and the apple is
  relocated.
\<close>

theorem reset_tick:
  assumes "resets i g"
  shows "\<exists>s1. handle_keys (events i) (the_snake g) = Inr s1
     \<and> move (choice_idx i) (update_direction s1) = Inr (reset (choice_idx i) (update_direction s1))
     \<and> tick i g =
        Inr (if position (the_apple g) = centre
             then \<lparr>the_snake = (reset (choice_idx i) (update_direction s1))\<lparr>length_s := 2\<rparr>,
                   the_apple = randomize_position (rand_x i) (rand_y i) (the_apple g)\<rparr>
             else g\<lparr>the_snake := reset (choice_idx i) (update_direction s1)\<rparr>)"
proof -
  from assms obtain s1 h t where k: "handle_keys (events i) (the_snake g) = Inr s1"
    and p: "positions s1 = h # t"
    and c: "self_collision (new_head h (direction (update_direction s1))) (update_direction s1)"
    unfolding resets_iff by blast
  have "positions (update_direction s1) = h # t" using p by (simp add: update_direction_body)
  from move_collision[OF this c] tick_reset[OF k p c] k show ?thesis by blast
qed

lemma loop_resets: "resets turn_down (loop_game ax ay)"
  by (simp add: resets_def turn_down_def loop_game_def on_key_def update_direction_def dir_defs
      get_head_position_def self_collision_def board_defs)

text \<open>
  The amended claim C1 at the concrete game: the apple is on the centre cell, the snake
  turns down into its tail cell.
\<close>

theorem reset_tick_witness:
  "resets turn_down (loop_game 16 12)
   \<and> tick turn_down (loop_game 16 12) =
       Inr \<lparr>the_snake = \<lparr>position = (320, 240), body_color = SNAKE_COLOR, length_s = 2,
              positions = [(320, 240)], direction = RIGHT, next_direction = None, last_s = None\<rparr>,
            the_apple = \<lparr>position = (100, 100), body_color = APPLE_COLOR\<rparr>\<rparr>"
  using reset_tick[OF loop_resets, of 16 12] loop_resets[of 16 12]
  by (simp add: turn_down_def loop_game_def on_key_def update_direction_def dir_defs centre_eq
      reset_def choice_nth randomize_position_def board_defs)

text \<open>
  Claim C1 as stated fails. The state \<open>loop_game 16 12\<close> is reached from the initial
  state in five iterations; the sixth takes the reset branch of \<open>move\<close>, and in the same
  iteration the head-equals-food test succeeds on the centre cell: \<open>length\<close> is
  incremented from 1 to 2 and the apple moves from \<open>(320, 240)\<close> to \<open>(100, 100)\<close>.
\<close>

theorem reset_tick_counterexample:
  "run (loop_inputs 16 12) (initial_game 17 12) = Inr (loop_game 16 12)
   \<and> resets turn_down (loop_game 16 12)
   \<and> position (the_apple (loop_game 16 12)) = (320, 240)
   \<and> tick turn_down (loop_game 16 12) =
       Inr \<lparr>the_snake = \<lparr>position = (320, 240), body_color = SNAKE_COLOR, length_s = 2,
              positions = [(320, 240)], direction = RIGHT, next_direction = None, last_s = None\<rparr>,
            the_apple = \<lparr>position = (100, 100), body_color = APPLE_COLOR\<rparr>\<rparr>"
  by code_simp

text \<open>
  Claim C2, as amended. If \<open>next_direction\<close> is set and is the exact opposite of
  \<open>direction\<close>, then \<open>update_direction\<close> returns early: \<open>direction\<close> is unchanged, and so
  is the buffer, which still holds the rejected direction (the whole snake is unchanged).
\<close>

theorem opposite_kept:
  assumes "next_direction s = Some nd" "nd = opposite (direction s)"
  shows "update_direction s = s
     \<and> direction (update_direction s) = direction s
     \<and> next_direction (update_direction s) = Some nd"
proof -
  have "update_direction s = s"
    using assms by (cases "direction s") (simp add: update_direction_def opposite_def)
  then show ?thesis using assms(1) by simp
qed

text \<open>The amended claim C2 for the initial snake, moving right, with LEFT buffered.\<close>

theorem opposite_kept_witness:
  "next_direction (Snake_init\<lparr>next_direction := Some LEFT\<rparr>) = Some LEFT
   \<and> LEFT = opposite (direction (Snake_init\<lparr>next_direction := Some LEFT\<rparr>))
   \<and> update_direction (Snake_init\<lparr>next_direction := Some LEFT\<rparr>)
        = Snake_init\<lparr>next_direction := Some LEFT\<rparr>"
proof -
  have a: "next_direction (Snake_init\<lparr>next_direction := Some LEFT\<rparr>) = Some LEFT" by simp
  have b: "LEFT = opposite (direction (Snake_init\<lparr>next_direction := Some LEFT\<rparr>))"
    by (simp add: Snake_init_eq opposite_def dir_defs)
  from opposite_kept[OF a b] a b show ?thesis by simp
qed

text \<open>
  Claim C2 as stated fails in its second half. The initial snake moves right; the player
  presses LEFT; after \<open>update_direction\<close> the buffer still holds LEFT, it has not been
  discarded.
\<close>

theorem opposite_discarded_counterexample:
  "handle_keys [KEYDOWN K_LEFT] Snake_init = Inr (Snake_init\<lparr>next_direction := Some LEFT\<rparr>)
   \<and> direction (Snake_init\<lparr>next_direction := Some LEFT\<rparr>) = RIGHT
   \<and> LEFT = opposite RIGHT
   \<and> next_direction (update_direction (Snake_init\<lparr>next_direction := Some LEFT\<rparr>)) = Some LEFT
   \<and> next_direction (update_direction (Snake_init\<lparr>next_direction := Some LEFT\<rparr>)) \<noteq> None"
  by (simp add: on_key_def Snake_init_eq update_direction_def opposite_def dir_defs)

text \<open>Only \<open>reset\<close> and the head-equals-food update write \<open>length\<close>.\<close>

lemma handle_keys_length: "handle_keys evs s = Inr s' \<Longrightarrow> length_s s' = length_s s"
proof -
  assume "handle_keys evs s = Inr s'"
  then have "s' = s\<lparr>next_direction := next_direction s'\<rparr>" by (rule handle_keys_buffer)
  then have "length_s s' = length_s (s\<lparr>next_direction := next_direction s'\<rparr>)" by simp
  then show ?thesis by simp
qed

lemma update_direction_length: "length_s (update_direction s) = length_s s"
  using update_direction_cases[of s] by auto

lemma eat_length:
  "eat gx gy g = Inr g' \<Longrightarrow>
   length_s (the_snake g') = length_s (the_snake g) \<or> length_s (the_snake g') = length_s (the_snake g) + 1"
  by (auto simp: eat_def split: sum.splits if_splits)

lemma tick_length:
  assumes "tick i g = Inr g'" "\<not> resets i g"
  shows "length_s (the_snake g') = length_s (the_snake g)
       \<or> length_s (the_snake g') = length_s (the_snake g) + 1"
proof -
  obtain s1 where k: "handle_keys (events i) (the_snake g) = Inr s1"
    using tick_Inr_keys[OF assms(1)] by blast
  define s2 where "s2 = update_direction s1"
  obtain s3 where m: "move (choice_idx i) s2 = Inr s3"
    and e: "eat (rand_x i) (rand_y i) (g\<lparr>the_snake := s3\<rparr>) = Inr g'"
    using assms(1) k by (cases "move (choice_idx i) s2") (simp_all add: tick_def s2_def)
  obtain h t where p: "positions s2 = h # t"
    using m by (cases "positions s2") (simp_all add: move_Nil)
  have "positions s1 = h # t" using p by (simp add: s2_def update_direction_body)
  then have "\<not> self_collision (new_head h (direction s2)) s2"
    using assms(2) k unfolding resets_iff s2_def by blast
  then have "length_s s3 = length_s s2" using m move_Cons[OF p, of "choice_idx i"] by (auto split: if_splits)
  then have "length_s s3 = length_s (the_snake g)"
    using handle_keys_length[OF k] by (simp add: s2_def update_direction_length)
  then show ?thesis using eat_length[OF e] by simp
qed

text \<open>
  Claim C3, as amended. In every state at the top of the loop of every execution the body
  is no longer than \<open>length\<close>, and so it is after one more iteration. On an iteration
  without a reset \<open>length\<close> does not decrease: it stays or grows by one. On an iteration
  with a reset \<open>length\<close> is set back to 1 (and is 2 at the end of the iteration when
  the apple lies on the centre cell), whatever it was before.
\<close>

theorem length_invariant:
  assumes "list_all input_ok is" "run is (initial_game ax ay) = Inr g"
    "input_ok i" "tick i g = Inr g'"
  shows "int (length (positions (the_snake g))) \<le> length_s (the_snake g)
     \<and> int (length (positions (the_snake g'))) \<le> length_s (the_snake g')
     \<and> (if resets i g
         then length_s (the_snake g') = (if position (the_apple g) = centre then 2 else 1)
         else length_s (the_snake g') = length_s (the_snake g)
            \<or> length_s (the_snake g') = length_s (the_snake g) + 1)"
proof -
  have inv: "snake_inv (the_snake g)" using reachable_inv[OF assms(1,2)] .
  have inv': "snake_inv (the_snake g')"
    using tick_preserves[OF inv input_ok_idx[OF assms(3)] assms(4)] .
  have a: "int (length (positions (the_snake g))) \<le> length_s (the_snake g)"
    using inv by (simp add: snake_inv_def snake_base_def)
  have b: "int (length (positions (the_snake g'))) \<le> length_s (the_snake g')"
    using inv' by (simp add: snake_inv_def snake_base_def)
  show ?thesis
  proof (cases "resets i g")
    case True
    then obtain s1 h t where k: "handle_keys (events i) (the_snake g) = Inr s1"
      and p: "positions s1 = h # t"
      and c: "self_collision (new_head h (direction (update_direction s1))) (update_direction s1)"
      unfolding resets_iff by blast
    have "length_s (the_snake g') = (if position (the_apple g) = centre then 2 else 1)"
      using tick_reset[OF k p c] assms(4) by (auto simp: reset_def split: if_splits)
    then show ?thesis using a b True by simp
  next
    case False
    then show ?thesis using a b tick_length[OF assms(4) False] by simp
  qed
qed

text \<open>The amended claim C3 at the concrete game, where the sixth iteration resets.\<close>

theorem length_invariant_witness:
  "list_all input_ok (loop_inputs 0 0)
   \<and> run (loop_inputs 0 0) (initial_game 17 12) = Inr (loop_game 0 0)
   \<and> input_ok turn_down
   \<and> tick turn_down (loop_game 0 0) =
       Inr ((loop_game 0 0)\<lparr>the_snake := reset 3 ((the_snake (loop_game 0 0))\<lparr>direction := DOWN\<rparr>)\<rparr>)
   \<and> resets turn_down (loop_game 0 0)
   \<and> int (length (positions (the_snake (loop_game 0 0)))) \<le> length_s (the_snake (loop_game 0 0))
   \<and> length_s (reset 3 ((the_snake (loop_game 0 0))\<lparr>direction := DOWN\<rparr>)) = 1"
proof -
  have h1: "list_all input_ok (loop_inputs 0 0)"
    by (rule loop_inputs_ok) (simp_all add: randint_ok_def board_defs)
  have h4: "tick turn_down (loop_game 0 0) =
       Inr ((loop_game 0 0)\<lparr>the_snake := reset 3 ((the_snake (loop_game 0 0))\<lparr>direction := DOWN\<rparr>)\<rparr>)"
    by code_simp
  from length_invariant[OF h1 loop_game_reached_corner turn_down_ok h4]
  show ?thesis using h1 loop_game_reached_corner turn_down_ok h4 loop_resets[of 0 0]
    by (simp add: reset_def)
qed

text \<open>
  Claim C3 as stated fails in its second half. The state \<open>loop_game 0 0\<close> is reached
  from the initial state, its \<open>length\<close> is 4; the next iteration resets the snake and
  leaves \<open>length\<close> at 1.
\<close>

theorem length_decreases_counterexample:
  "run (loop_inputs 0 0) (initial_game 17 12) = Inr (loop_game 0 0)
   \<and> length_s (the_snake (loop_game 0 0)) = 4
   \<and> tick turn_down (loop_game 0 0) =
       Inr \<lparr>the_snake = \<lparr>position = (320, 240), body_color = SNAKE_COLOR, length_s = 1,
              positions = [(320, 240)], direction = RIGHT, next_direction = None, last_s = None\<rparr>,
            the_apple = \<lparr>position = (0, 0), body_color = APPLE_COLOR\<rparr>\<rparr>"
  by code_simp

text \<open>
  The slice \<open>positions[2:]\<close> holds the cells at index 2 and above; \<open>move\<close> returns the
  reset snake exactly when it collides, since otherwise it leaves a body of two cells or
  more, or sets \<open>last\<close>.
\<close>

lemma in_drop_iff: "x \<in> set (drop n ps) \<longleftrightarrow> (\<exists>j. n \<le> j \<and> j < length ps \<and> ps ! j = x)"
proof
  assume "x \<in> set (drop n ps)"
  then obtain i where i: "i < length (drop n ps)" "drop n ps ! i = x"
    by (auto simp: in_set_conv_nth)
  then have "n \<le> n + i \<and> n + i < length ps \<and> ps ! (n + i) = x" by auto
  then show "\<exists>j. n \<le> j \<and> j < length ps \<and> ps ! j = x" by blast
next
  assume "\<exists>j. n \<le> j \<and> j < length ps \<and> ps ! j = x"
  then obtain j where j: "n \<le> j" "j < length ps" "ps ! j = x" by blast
  then have "j - n < length (drop n ps)" "drop n ps ! (j - n) = x" by auto
  then show "x \<in> set (drop n ps)" by (auto simp: in_set_conv_nth)
qed

lemma move_reset_iff:
  assumes "positions s = h # t"
  shows "(move k s = Inr (reset k s)) = self_collision (new_head h (direction s)) s"
proof (cases "self_collision (new_head h (direction s)) s")
  case True
  then show ?thesis using move_collision[OF assms True] by simp
next
  case False
  have 1: "s\<lparr>positions := p, last_s := Some l\<rparr> \<noteq> reset k s" for p l
  proof
    assume "s\<lparr>positions := p, last_s := Some l\<rparr> = reset k s"
    then have "last_s (s\<lparr>positions := p, last_s := Some l\<rparr>) = last_s (reset k s)" by simp
    then show False by (simp add: reset_def)
  qed
  have 2: "s\<lparr>positions := a # b # p, last_s := l\<rparr> \<noteq> reset k s" for a b p l
  proof
    assume "s\<lparr>positions := a # b # p, last_s := l\<rparr> = reset k s"
    then have "positions (s\<lparr>positions := a # b # p, last_s := l\<rparr>) = positions (reset k s)" by simp
    then show False by (simp add: reset_def)
  qed
  show ?thesis using False move_Cons[OF assms, of k] 1 2 by simp
qed

text \<open>
  Claim C4. For a snake with a non-empty body, \<open>move\<close> ends in \<open>reset\<close> if and only if
  the new head equals a cell at index 2 or more of the body before the move, which is the
  test \<open>new_head in self.positions[2:]\<close>. So a body of one or two cells never collides,
  and a move onto the neck cell \<open>positions[1]\<close> of a duplicate-free body of any length
  does not collide either.
\<close>

theorem self_collision_iff:
  assumes "positions s = h # t"
  shows "(move k s = Inr (reset k s))
           = (\<exists>j. 2 \<le> j \<and> j < length (positions s) \<and> positions s ! j = new_head h (direction s))
     \<and> (move k s = Inr (reset k s)) = self_collision (new_head h (direction s)) s
     \<and> (length (positions s) \<le> 2 \<longrightarrow> move k s \<noteq> Inr (reset k s))
     \<and> (distinct (positions s) \<and> 2 \<le> length (positions s)
          \<and> new_head h (direction s) = positions s ! 1 \<longrightarrow> move k s \<noteq> Inr (reset k s))"
proof -
  have a: "(move k s = Inr (reset k s)) = self_collision (new_head h (direction s)) s"
    using assms by (rule move_reset_iff)
  have b: "self_collision (new_head h (direction s)) s
           = (\<exists>j. 2 \<le> j \<and> j < length (positions s) \<and> positions s ! j = new_head h (direction s))"
    by (simp add: self_collision_def in_drop_iff)
  have c: "\<not> self_collision x s" if "length (positions s) \<le> 2" for x
    using that by (simp add: self_collision_def)
  have d: "\<not> self_collision (new_head h (direction s)) s"
    if "distinct (positions s)" "2 \<le> length (positions s)" "new_head h (direction s) = positions s ! 1"
  proof (cases t)
    case Nil then show ?thesis using that(2) assms by simp
  next
    case (Cons n r)
    then show ?thesis using that assms by (simp add: self_collision_def)
  qed
  show ?thesis using a b c d by blast
qed

text \<open>
  Claim C4 for a snake of two cells with the head right of the neck and heading left, onto
  the neck: no reset.
\<close>

theorem self_collision_iff_witness:
  "positions reversed_snake = [(20, 0), (0, 0)]
   \<and> length (positions reversed_snake) \<le> 2
   \<and> distinct (positions reversed_snake)
   \<and> new_head (20, 0) (direction reversed_snake) = positions reversed_snake ! 1
   \<and> move 0 reversed_snake \<noteq> Inr (reset 0 reversed_snake)"
proof -
  have p: "positions reversed_snake = [(20, 0), (0, 0)]"
    by (simp add: reversed_snake_def)
  have n: "new_head (20, 0) (direction reversed_snake) = positions reversed_snake ! 1"
    by (simp add: reversed_snake_def dir_defs board_defs)
  from self_collision_iff[OF p, of 0] show ?thesis using p n by simp
qed

text \<open>
  Claim C5. Let \<open>g\<close> be the state at the top of the loop after any number of iterations
  with admissible random draws (none: the state right after construction; otherwise the
  state after the head-equals-food update), and let the events of the next iteration be
  handled without \<open>QUIT\<close>. Then in \<open>g\<close>, after \<open>update_direction\<close>, after \<open>move\<close>
  (reset branch included) and after the head-equals-food update that ends the iteration,
  the body is non-empty, \<open>get_head_position\<close> returns its first cell, no cell occurs
  twice, and consecutive cells are one wrap-aware grid step apart. In particular \<open>move\<close>
  and the iteration return, they do not raise.
\<close>

theorem body_invariant:
  assumes "list_all input_ok is" "run is (initial_game ax ay) = Inr g"
    "input_ok i" "handle_keys (events i) (the_snake g) = Inr s1"
  shows "well_formed (the_snake g)
     \<and> well_formed (update_direction s1)
     \<and> (\<exists>s3. move (choice_idx i) (update_direction s1) = Inr s3 \<and> well_formed s3)
     \<and> (\<exists>g'. tick i g = Inr g' \<and> well_formed (the_snake g'))"
proof -
  have inv: "snake_inv (the_snake g)" using reachable_inv[OF assms(1,2)] .
  have k: "choice_idx i < 4" using assms(3) by (rule input_ok_idx)
  have mid: "snake_mid (update_direction s1)"
    using handle_keys_inv[OF assms(4) inv] by (rule update_direction_mid)
  from move_inv[OF mid k] obtain s3
    where "move (choice_idx i) (update_direction s1) = Inr s3" "snake_inv s3" by blast
  then have m: "\<exists>s3. move (choice_idx i) (update_direction s1) = Inr s3 \<and> well_formed s3"
    using snake_inv_well_formed by blast
  from tick_inv[OF inv k assms(4)] have t: "\<exists>g'. tick i g = Inr g' \<and> well_formed (the_snake g')"
    using snake_inv_well_formed by blast
  show ?thesis using snake_inv_well_formed[OF inv] snake_mid_well_formed[OF mid] m t by blast
qed

text \<open>Claim C5 at the concrete game, before the iteration that resets.\<close>

theorem body_invariant_witness:
  "list_all input_ok (loop_inputs 16 12)
   \<and> run (loop_inputs 16 12) (initial_game 17 12) = Inr (loop_game 16 12)
   \<and> input_ok turn_down
   \<and> handle_keys (events turn_down) (the_snake (loop_game 16 12))
        = Inr ((the_snake (loop_game 16 12))\<lparr>next_direction := Some DOWN\<rparr>)
   \<and> well_formed (the_snake (loop_game 16 12))
   \<and> well_formed (update_direction ((the_snake (loop_game 16 12))\<lparr>next_direction := Some DOWN\<rparr>))"
proof -
  have h1: "list_all input_ok (loop_inputs 16 12)"
    by (rule loop_inputs_ok) (simp_all add: randint_ok_def board_defs)
  have h4: "handle_keys (events turn_down) (the_snake (loop_game 16 12))
        = Inr ((the_snake (loop_game 16 12))\<lparr>next_direction := Some DOWN\<rparr>)"
    by (simp add: turn_down_def on_key_def)
  from body_invariant[OF h1 loop_game_reached_centre turn_down_ok h4]
  show ?thesis using h1 loop_game_reached_centre turn_down_ok h4 by blast
qed

text \<open>
  Claim C6. For a snake with a non-empty body whose direction is a unit vector, the cell
  \<open>move\<close> computes is the head plus one cell in the direction, wrapped per axis by
  \<open>mod\<close>; unless the move collides, it is the head after \<open>move\<close>. Its coordinates are
  non-negative and inside the screen, it is one wrap-aware step from the old head, and at
  the four edges it wraps: right from the last column to \<open>x = 0\<close>, left from the first
  column to the last, down from the last row to \<open>y = 0\<close>, up from the first row to the
  last.
\<close>

theorem move_new_head:
  assumes "direction s \<in> set unit_vectors" "positions s = h # t"
  shows "new_head h (direction s)
           = ((fst h + fst (direction s) * GRID_SIZE) mod SCREEN_WIDTH,
              (snd h + snd (direction s) * GRID_SIZE) mod SCREEN_HEIGHT)
     \<and> (\<exists>s'. move k s = Inr s'
           \<and> (self_collision (new_head h (direction s)) s
                \<or> get_head_position s' = Inr (new_head h (direction s))))
     \<and> 0 \<le> fst (new_head h (direction s)) \<and> fst (new_head h (direction s)) < SCREEN_WIDTH
     \<and> 0 \<le> snd (new_head h (direction s)) \<and> snd (new_head h (direction s)) < SCREEN_HEIGHT
     \<and> adjacent (new_head h (direction s)) h
     \<and> fst (new_head (SCREEN_WIDTH - GRID_SIZE, y) RIGHT) = 0
     \<and> fst (new_head (0, y) LEFT) = SCREEN_WIDTH - GRID_SIZE
     \<and> snd (new_head (x, SCREEN_HEIGHT - GRID_SIZE) DOWN) = 0
     \<and> snd (new_head (x, 0) UP) = SCREEN_HEIGHT - GRID_SIZE"
proof -
  have a: "new_head h (direction s)
           = ((fst h + fst (direction s) * GRID_SIZE) mod SCREEN_WIDTH,
              (snd h + snd (direction s) * GRID_SIZE) mod SCREEN_HEIGHT)"
    by (cases h; cases "direction s") simp
  have b: "\<exists>s'. move k s = Inr s'
           \<and> (self_collision (new_head h (direction s)) s
                \<or> get_head_position s' = Inr (new_head h (direction s)))"
    using move_Cons[OF assms(2), of k] by (simp add: get_head_position_def)
  have e: "fst (new_head (SCREEN_WIDTH - GRID_SIZE, y) RIGHT) = 0"
     "fst (new_head (0, y) LEFT) = SCREEN_WIDTH - GRID_SIZE"
     "snd (new_head (x, SCREEN_HEIGHT - GRID_SIZE) DOWN) = 0"
     "snd (new_head (x, 0) UP) = SCREEN_HEIGHT - GRID_SIZE"
    by (simp_all add: dir_defs board_defs)
  show ?thesis using a b e new_head_range[of h "direction s"] new_head_adjacent[OF assms(1), of h]
    by blast
qed

text \<open>Claim C6 for a one-cell snake in the last column, moving right.\<close>

theorem move_new_head_witness:
  "direction (Snake_init\<lparr>positions := [(620, 240)]\<rparr>) \<in> set unit_vectors
   \<and> positions (Snake_init\<lparr>positions := [(620, 240)]\<rparr>) = [(620, 240)]
   \<and> new_head (620, 240) (direction (Snake_init\<lparr>positions := [(620, 240)]\<rparr>)) = (0, 240)
   \<and> adjacent (0, 240) (620, 240)
   \<and> move 0 (Snake_init\<lparr>positions := [(620, 240)]\<rparr>)
        = Inr (Snake_init\<lparr>positions := [(0, 240)], last_s := Some (620, 240)\<rparr>)"
proof -
  have d: "direction (Snake_init\<lparr>positions := [(620, 240)]\<rparr>) \<in> set unit_vectors"
    by (simp add: Snake_init_eq unit_vectors_def)
  have p: "positions (Snake_init\<lparr>positions := [(620, 240)]\<rparr>) = [(620, 240)]" by simp
  have r: "new_head (620, 240) RIGHT = (0, 240)"
    by (simp add: dir_defs board_defs)
  have n: "new_head (620, 240) (direction (Snake_init\<lparr>positions := [(620, 240)]\<rparr>)) = (0, 240)"
    using r by (simp add: Snake_init_eq)
  have m: "move 0 (Snake_init\<lparr>positions := [(620, 240)]\<rparr>)
        = Inr (Snake_init\<lparr>positions := [(0, 240)], last_s := Some (620, 240)\<rparr>)"
    unfolding move_Cons[OF p] by (simp add: self_collision_def Snake_init_eq r)
  have ds: "direction Snake_init = RIGHT" by (simp add: Snake_init_eq)
  from move_new_head[OF d p, of 0 0 0] show ?thesis using d m by (simp add: ds r)
qed

text \<open>
  Claim C7. If a unit vector is buffered that is perpendicular to, or the same as, the
  current direction (a unit vector), \<open>update_direction\<close> makes it the direction and
  empties the buffer.
\<close>

theorem turn_adopted:
  assumes "direction s \<in> set unit_vectors" "next_direction s = Some nd" "nd \<in> set unit_vectors"
    "perpendicular nd (direction s) \<or> nd = direction s"
  shows "update_direction s = s\<lparr>direction := nd, next_direction := None\<rparr>
     \<and> direction (update_direction s) = nd
     \<and> next_direction (update_direction s) = None"
proof -
  have "nd \<noteq> opposite (direction s)"
    using assms(1,3,4) unfolding unit_vectors_cases
    by (elim disjE) (simp_all add: opposite_def perpendicular_def)
  then have "update_direction s = s\<lparr>direction := nd, next_direction := None\<rparr>"
    using assms(2) by (cases "direction s"; cases nd) (auto simp: update_direction_def opposite_def)
  then show ?thesis by simp
qed

text \<open>Claim C7 for the initial snake, moving right, with UP buffered.\<close>

theorem turn_adopted_witness:
  "direction (Snake_init\<lparr>next_direction := Some UP\<rparr>) \<in> set unit_vectors
   \<and> next_direction (Snake_init\<lparr>next_direction := Some UP\<rparr>) = Some UP
   \<and> UP \<in> set unit_vectors
   \<and> perpendicular UP (direction (Snake_init\<lparr>next_direction := Some UP\<rparr>))
   \<and> update_direction (Snake_init\<lparr>next_direction := Some UP\<rparr>)
        = Snake_init\<lparr>direction := UP, next_direction := None\<rparr>"
proof -
  have a: "direction (Snake_init\<lparr>next_direction := Some UP\<rparr>) \<in> set unit_vectors"
    by (simp add: Snake_init_eq unit_vectors_def)
  have b: "next_direction (Snake_init\<lparr>next_direction := Some UP\<rparr>) = Some UP" by simp
  have c: "UP \<in> set unit_vectors" by (simp add: unit_vectors_def)
  have d: "perpendicular UP (direction (Snake_init\<lparr>next_direction := Some UP\<rparr>))"
    by (simp add: Snake_init_eq perpendicular_def dir_defs)
  from turn_adopted[OF a b c disjI1[OF d]] show ?thesis using a b c d by simp
qed

text \<open>
  Claim C8. After \<open>reset\<close>, from any state: the body is the single cell at the board
  centre, \<open>length\<close> is 1, the buffer is empty, and the direction is one of the four unit
  vectors. It is the vector at the index that \<open>random.choice\<close> draws among four; the four
  vectors are distinct, so each of them is chosen by exactly one of the four indices, and a
  uniformly drawn index gives a uniformly drawn direction.
\<close>

theorem reset_post:
  assumes "k < 4"
  shows "positions (reset k s) = [centre] \<and> length (positions (reset k s)) = 1
     \<and> centre = (SCREEN_WIDTH div 2, SCREEN_HEIGHT div 2)
     \<and> length_s (reset k s) = 1
     \<and> position (reset k s) = centre
     \<and> next_direction (reset k s) = None
     \<and> last_s (reset k s) = None
     \<and> direction (reset k s) \<in> set unit_vectors
     \<and> direction (reset k s) = unit_vectors ! k
     \<and> distinct unit_vectors \<and> length unit_vectors = 4"
proof -
  have d: "direction (reset k s) = unit_vectors ! k"
    by (simp add: reset_def random_choice_def unit_vectors_def)
  have "unit_vectors ! k \<in> set unit_vectors"
    using assms by (intro nth_mem) (simp add: unit_vectors_def)
  moreover have "distinct unit_vectors \<and> length unit_vectors = 4"
    by (simp add: unit_vectors_def dir_defs)
  moreover have "centre = (SCREEN_WIDTH div 2, SCREEN_HEIGHT div 2)"
    by (simp add: centre_eq board_defs)
  ultimately show ?thesis using d by (simp add: reset_def)
qed

text \<open>Claim C8 for the snake of the concrete game and the index 3.\<close>

theorem reset_post_witness:
  "(3::nat) < 4
   \<and> reset 3 (the_snake (loop_game 0 0))
      = \<lparr>position = (320, 240), body_color = SNAKE_COLOR, length_s = 1,
          positions = [(320, 240)], direction = RIGHT, next_direction = None, last_s = None\<rparr>"
proof -
  have a: "(3::nat) < 4" by simp
  have "reset 3 (the_snake (loop_game 0 0))
      = \<lparr>position = (320, 240), body_color = SNAKE_COLOR, length_s = 1,
          positions = [(320, 240)], direction = RIGHT, next_direction = None, last_s = None\<rparr>"
    using reset_post[OF a, of "the_snake (loop_game 0 0)"]
    by (simp add: reset_def loop_game_def centre_eq choice_nth)
  then show ?thesis by simp
qed

text \<open>
  Claim C9. The initial snake has one cell, at the board centre, and moves right; the apple
  is one cell ahead on the same row. After one iteration without events the head is on
  the cell of the apple, the body still has one cell, \<open>length\<close> is 2, and
  \<open>randomize_position\<close> has put the apple on the cell it has drawn (which is where the
  apple was if the draw repeats that cell).
\<close>

theorem scenario_a:
  "Snake_init = \<lparr>position = centre, body_color = SNAKE_COLOR, length_s = 1,
                 positions = [centre], direction = RIGHT, next_direction = None, last_s = None\<rparr>
   \<and> position (the_apple (initial_game 17 12)) = (fst centre + GRID_SIZE, snd centre)
   \<and> tick \<lparr>events = [], choice_idx = k, rand_x = gx, rand_y = gy\<rparr> (initial_game 17 12)
       = Inr \<lparr>the_snake = Snake_init\<lparr>length_s := 2,
                 positions := [position (the_apple (initial_game 17 12))],
                 last_s := Some centre\<rparr>,
              the_apple = randomize_position gx gy (the_apple (initial_game 17 12))\<rparr>
   \<and> position (randomize_position gx gy (the_apple (initial_game 17 12)))
       = (gx * GRID_SIZE, gy * GRID_SIZE)"
proof -
  have u: "update_direction Snake_init = Snake_init"
    by (simp add: update_direction_def Snake_init_eq)
  have m: "move k Snake_init = Inr (Snake_init\<lparr>positions := [(340, 240)], last_s := Some (320, 240)\<rparr>)"
    by (simp add: move_def get_head_position_def self_collision_def Snake_init_eq centre_eq
        RIGHT_def board_defs)
  have ls: "length_s Snake_init = 1" by (simp add: Snake_init_eq)
  have a: "position (the_apple (initial_game 17 12)) = (340, 240)"
    by (simp add: initial_game_def Apple_init_def randomize_position_def board_defs)
  have t: "tick \<lparr>events = [], choice_idx = k, rand_x = gx, rand_y = gy\<rparr> (initial_game 17 12)
       = Inr \<lparr>the_snake = Snake_init\<lparr>length_s := 2, positions := [(340, 240)],
                 last_s := Some (320, 240)\<rparr>,
              the_apple = randomize_position gx gy (the_apple (initial_game 17 12))\<rparr>"
    using a by (simp add: tick_def initial_game_def u m eat_def get_head_position_def ls)
  show ?thesis using t a by (simp add: Snake_init_eq centre_eq randomize_position_def board_defs)
qed

text \<open>Claim C9 with the draws fixed.\<close>

theorem scenario_a_witness:
  "tick \<lparr>events = [], choice_idx = 0, rand_x = 5, rand_y = 7\<rparr> (initial_game 17 12)
     = Inr \<lparr>the_snake = \<lparr>position = (320, 240), body_color = SNAKE_COLOR, length_s = 2,
               positions = [(340, 240)], direction = RIGHT, next_direction = None,
               last_s = Some (320, 240)\<rparr>,
            the_apple = \<lparr>position = (100, 140), body_color = APPLE_COLOR\<rparr>\<rparr>"
  using scenario_a[of 0 5 7]
  by (simp add: Snake_init_eq centre_eq initial_game_def Apple_init_def randomize_position_def
      GameObject_init_def board_defs)

text \<open>
  Claim C10. With draws in the range of \<open>random.randint\<close>, the position of the apple
  after construction and after \<open>randomize_position\<close> is a cell of the board: both
  coordinates are multiples of the cell size, \<open>0 \<le> x < SCREEN_WIDTH\<close> and
  \<open>0 \<le> y < SCREEN_HEIGHT\<close>.
\<close>

theorem apple_on_board:
  assumes "randint_ok 0 (GRID_WIDTH - 1) gx" "randint_ok 0 (GRID_HEIGHT - 1) gy"
  shows "on_board (position (Apple_init gx gy))
     \<and> on_board (position (randomize_position gx gy a))
     \<and> position (randomize_position gx gy a) = (gx * GRID_SIZE, gy * GRID_SIZE)
     \<and> GRID_SIZE dvd fst (position (randomize_position gx gy a))
     \<and> 0 \<le> fst (position (randomize_position gx gy a))
     \<and> fst (position (randomize_position gx gy a)) < SCREEN_WIDTH
     \<and> GRID_SIZE dvd snd (position (randomize_position gx gy a))
     \<and> 0 \<le> snd (position (randomize_position gx gy a))
     \<and> snd (position (randomize_position gx gy a)) < SCREEN_HEIGHT"
  using assms
  by (simp add: randint_ok_def randomize_position_def Apple_init_def on_board_def board_defs)

text \<open>Claim C10 for the last cell of the board.\<close>

theorem apple_on_board_witness:
  "randint_ok 0 (GRID_WIDTH - 1) 31 \<and> randint_ok 0 (GRID_HEIGHT - 1) 23
   \<and> position (Apple_init 31 23) = (620, 460) \<and> on_board (620, 460)"
proof -
  have a: "randint_ok 0 (GRID_WIDTH - 1) 31" by (simp add: randint_ok_def board_defs)
  have b: "randint_ok 0 (GRID_HEIGHT - 1) 23" by (simp add: randint_ok_def board_defs)
  have c: "position (Apple_init 31 23) = (620, 460)"
    by (simp add: Apple_init_def randomize_position_def board_defs)
  from apple_on_board[OF a b] show ?thesis using a b c by simp
qed


section \<open>A rejected buffer has no later effect\<close>

text \<open>Without a \<open>QUIT\<close> event the loop keeps running: no iteration raises.\<close>

lemma run_returns:
  assumes "list_all (\<lambda>i. input_ok i \<and> QUIT \<notin> set (events i)) is"
  shows "\<exists>g. run is (initial_game ax ay) = Inr g"
proof (cases "run is (initial_game ax ay)")
  case (Inl e)
  have a: "\<forall>i\<in>set is. input_ok i \<and> QUIT \<notin> set (events i)"
    using assms by (simp add: list_all_iff)
  then have "\<forall>i\<in>set is. choice_idx i < 4" using input_ok_idx by blast
  from run_error[OF snake_inv_initial this Inl] a show ?thesis by blast
next
  case (Inr g) then show ?thesis by blast
qed

text \<open>
  When \<open>update_direction\<close> rejects the buffered direction it leaves it in the buffer. The
  buffer is read nowhere else, and it is rejected again on every later iteration until a
  key overwrites it or a reset empties it: a run from a state with a rejected buffer and
  the run from the same state with the buffer emptied agree, up to the buffer, after any
  inputs.
\<close>

lemma on_key_clear:
  "on_key k (s\<lparr>next_direction := x\<rparr>) = on_key k s
   \<or> (on_key k s = s \<and> on_key k (s\<lparr>next_direction := x\<rparr>) = s\<lparr>next_direction := x\<rparr>)"
  by (cases k) (simp_all add: on_key_def)

lemma handle_keys_clear:
  "handle_keys evs (s\<lparr>next_direction := x\<rparr>) = handle_keys evs s
   \<or> (handle_keys evs s = Inr s \<and> handle_keys evs (s\<lparr>next_direction := x\<rparr>) = Inr (s\<lparr>next_direction := x\<rparr>))"
proof (induction evs s rule: handle_keys.induct)
  case (3 k es s)
  from on_key_clear[where k=k and s=s and x=x] show ?case
  proof
    assume "on_key k (s\<lparr>next_direction := x\<rparr>) = on_key k s"
    then show ?thesis by simp
  next
    assume "on_key k s = s \<and> on_key k (s\<lparr>next_direction := x\<rparr>) = s\<lparr>next_direction := x\<rparr>"
    then show ?thesis using 3 by simp
  qed
qed simp_all

lemma move_clear:
  "move k (s\<lparr>next_direction := None\<rparr>)
     = (case move k s of Inl e \<Rightarrow> Inl e | Inr s' \<Rightarrow> Inr (s'\<lparr>next_direction := None\<rparr>))"
proof (cases "positions s")
  case Nil then show ?thesis by (simp add: move_Nil)
next
  case (Cons h t)
  then have p: "positions (s\<lparr>next_direction := None\<rparr>) = h # t" by simp
  show ?thesis unfolding move_Cons[OF Cons] move_Cons[OF p]
    by (simp add: self_collision_def reset_def)
qed


lemma move_rejected:
  assumes "move k s = Inr s3" "rejected_buffer s"
  shows "rejected_buffer s3 \<or> next_direction s3 = None"
proof -
  obtain h t where p: "positions s = h # t"
    using assms(1) by (cases "positions s") (simp_all add: move_Nil)
  show ?thesis using assms move_Cons[OF p, of k]
    by (auto simp: rejected_buffer_def reset_def split: if_splits)
qed

lemma eat_clear:
  "eat gx gy (g\<lparr>the_snake := s\<lparr>next_direction := None\<rparr>\<rparr>)
     = map_sum id clear_buffer (eat gx gy (g\<lparr>the_snake := s\<rparr>))"
  by (cases "positions s") (simp_all add: eat_def get_head_position_def clear_buffer_def)

lemma eat_rejected:
  "eat gx gy (g\<lparr>the_snake := s\<rparr>) = Inr g' \<Longrightarrow>
   rejected_buffer (the_snake g') = rejected_buffer s
   \<and> next_direction (the_snake g') = next_direction s"
  by (cases "positions s") (auto simp: eat_def get_head_position_def rejected_buffer_def split: if_splits)

lemma clear_buffer_idem: "next_direction (the_snake g) = None \<Longrightarrow> clear_buffer g = g"
  by (simp add: clear_buffer_def)

lemma tick_clear:
  assumes "rejected_buffer (the_snake g)"
  shows "tick i (clear_buffer g) = tick i g
     \<or> (\<exists>e. tick i g = Inl e \<and> tick i (clear_buffer g) = Inl e)
     \<or> (\<exists>g'. tick i g = Inr g' \<and> tick i (clear_buffer g) = Inr (clear_buffer g')
           \<and> (rejected_buffer (the_snake g') \<or> clear_buffer g' = g'))"
proof -
  define s where "s = the_snake g"
  have r: "rejected_buffer s" using assms by (simp add: s_def)
  have cs: "the_snake (clear_buffer g) = s\<lparr>next_direction := None\<rparr>"
    and cu: "clear_buffer g\<lparr>the_snake := x\<rparr> = g\<lparr>the_snake := x\<rparr>"
    and ca: "the_apple (clear_buffer g) = the_apple g" for x
    by (simp_all add: clear_buffer_def s_def)
  from handle_keys_clear[where evs = "events i" and s = s and x = None] show ?thesis
  proof
    assume "handle_keys (events i) (s\<lparr>next_direction := None\<rparr>) = handle_keys (events i) s"
    then have "tick i (clear_buffer g) = tick i g"
      by (simp add: tick_def cs cu s_def[symmetric] split: sum.splits)
    then show ?thesis by simp
  next
    assume k: "handle_keys (events i) s = Inr s \<and>
      handle_keys (events i) (s\<lparr>next_direction := None\<rparr>) = Inr (s\<lparr>next_direction := None\<rparr>)"
    have u: "update_direction s = s"
      using r by (cases "direction s") (simp add: update_direction_def rejected_buffer_def opposite_def)
    have u0: "update_direction (s\<lparr>next_direction := None\<rparr>) = s\<lparr>next_direction := None\<rparr>"
      by (simp add: update_direction_def)
    show ?thesis
    proof (cases "move (choice_idx i) s")
      case (Inl e)
      then have "tick i g = Inl e \<and> tick i (clear_buffer g) = Inl e"
        using k by (simp add: tick_def cs cu s_def[symmetric] u u0 move_clear)
      then show ?thesis by blast
    next
      case (Inr s3)
      have t: "tick i g = eat (rand_x i) (rand_y i) (g\<lparr>the_snake := s3\<rparr>)"
        using k Inr by (simp add: tick_def s_def[symmetric] u)
      have t0: "tick i (clear_buffer g)
                 = map_sum id clear_buffer (eat (rand_x i) (rand_y i) (g\<lparr>the_snake := s3\<rparr>))"
        using k Inr by (simp add: tick_def cs cu u0 move_clear eat_clear)
      show ?thesis
      proof (cases "eat (rand_x i) (rand_y i) (g\<lparr>the_snake := s3\<rparr>)")
        case (Inl e)
        then show ?thesis using t t0 by simp
      next
        case (Inr g')
        have "rejected_buffer (the_snake g') \<or> clear_buffer g' = g'"
          using move_rejected[OF \<open>move (choice_idx i) s = Inr s3\<close> r] eat_rejected[OF Inr]
            clear_buffer_idem[of g'] by auto
        then show ?thesis using t t0 Inr by simp
      qed
    qed
  qed
qed

lemma run_clear:
  "rejected_buffer (the_snake g) \<Longrightarrow>
   map_sum id clear_buffer (run is (clear_buffer g)) = map_sum id clear_buffer (run is g)"
proof (induction "is" arbitrary: g)
  case Nil
  then show ?case by (simp add: clear_buffer_def)
next
  case (Cons i "is")
  from tick_clear[OF Cons.prems, of i] show ?case
  proof (elim disjE exE conjE)
    assume "tick i (clear_buffer g) = tick i g"
    then show ?thesis by simp
  next
    fix e assume "tick i g = Inl e" "tick i (clear_buffer g) = Inl e"
    then show ?thesis by simp
  next
    fix g' assume t: "tick i g = Inr g'" "tick i (clear_buffer g) = Inr (clear_buffer g')"
      and "rejected_buffer (the_snake g')"
    then show ?thesis using Cons.IH[of g'] by simp
  next
    fix g' assume t: "tick i g = Inr g'" "tick i (clear_buffer g) = Inr (clear_buffer g')"
      and "clear_buffer g' = g'"
    then show ?thesis by simp
  qed
qed

end
